theory Spec2Isabelle
  imports Main "HOL-Library.Sublist"
begin

section \<open>Python strings\<close>

text \<open>
  A Python \<open>str\<close> is modelled as a HOL \<open>string\<close>; a \<open>char\<close> stands for a code point
  below 256.  The characters that have no literal are given names.
\<close>

abbreviation TAB :: char where "TAB \<equiv> CHR 0x09"
abbreviation NL :: char where "NL \<equiv> CHR 0x0A"
abbreviation DQ :: char where "DQ \<equiv> CHR 0x22"

text \<open>
  \<open>str.isspace\<close> on one character, which is also the class \<open>\s\<close> of \<open>re\<close> on a
  \<open>str\<close> pattern: below 256 these are 0x09-0x0D, 0x1C-0x20, 0x85 and 0xA0.
\<close>

definition is_space :: "char \<Rightarrow> bool" where
  "is_space c = (c \<in> set [CHR 0x09, CHR 0x0A, CHR 0x0B, CHR 0x0C, CHR 0x0D,
     CHR 0x1C, CHR 0x1D, CHR 0x1E, CHR 0x1F, CHR 0x20, CHR 0x85, CHR 0xA0])"

text \<open>The class \<open>\d\<close>: below 256 the only decimal digits are 0-9.\<close>

definition is_digit :: "char \<Rightarrow> bool" where
  "is_digit c = (c \<in> set ''0123456789'')"

text \<open>\<open>s.strip()\<close>: leading and trailing whitespace removed.\<close>

definition strip :: "string \<Rightarrow> string" where
  "strip s = rev (dropWhile is_space (rev (dropWhile is_space s)))"

text \<open>\<open>s.startswith(p)\<close>.\<close>

definition startswith :: "string \<Rightarrow> string \<Rightarrow> bool" where
  "startswith s p = (take (length p) s = p)"

text \<open>
  Modelled from the spec: the host's \<open>FilePrefix\<close> (\<open>line_iterator\<close>, \<open>string_io\<close>) is
  not part of the module.  The spec describes it as a read-only view of the leading part
  of a file that is iterated line by line, in the order of the file, no line synthesized.
  The sniffers below take the lines it yields; \<open>readlines\<close> cuts a text into them as a
  Python text stream does (\<open>for line in fh\<close>, \<open>fh.readline()\<close>): after every newline,
  each line keeping its newline, the last one possibly without.
\<close>

fun readlines_from :: "string \<Rightarrow> string \<Rightarrow> string list" where
  "readlines_from acc [] = (if acc = [] then [] else [acc])"
| "readlines_from acc (c # cs) =
     (if c = NL then (acc @ [c]) # readlines_from [] cs else readlines_from (acc @ [c]) cs)"

definition readlines :: "string \<Rightarrow> string list" where
  "readlines s = readlines_from [] s"

section \<open>The regular expressions of the module\<close>

text \<open>
  The patterns of the module use single characters, the classes \<open>\d\<close>, \<open>\S\<close>, \<open>.\<close>
  and \<open>[^\t]\<close>, literal words, greedy \<open>*\<close> and \<open>+\<close> on one character class, an optional
  group, alternatives, sequencing and \<open>$\<close>.
\<close>

datatype atom = Lit char | Digit | NonSpace | NotChar char | Dot

fun atom_ok :: "atom \<Rightarrow> char \<Rightarrow> bool" where
  "atom_ok (Lit a) c = (c = a)"
| "atom_ok Digit c = is_digit c"
| "atom_ok NonSpace c = (\<not> is_space c)"
| "atom_ok (NotChar a) c = (c \<noteq> a)"
| "atom_ok Dot c = (c \<noteq> NL)"

datatype regex =
    One atom
  | Str string
  | Star atom
  | Plus atom
  | Opt regex
  | Alt regex regex
  | Seq regex regex
  | Eol

text \<open>
  Python's matcher backtracks: a greedy repetition takes as many characters as it can
  and gives them back one by one while the rest of the pattern fails; of two
  alternatives the left one is tried first.  The continuation \<open>k\<close> is the rest of the
  pattern; it receives the text not yet consumed.
\<close>

fun star :: "atom \<Rightarrow> string \<Rightarrow> (string \<Rightarrow> string option) \<Rightarrow> string option" where
  "star a [] k = k []"
| "star a (c # cs) k =
     (if atom_ok a c
      then (case star a cs k of Some r \<Rightarrow> Some r | None \<Rightarrow> k (c # cs))
      else k (c # cs))"

fun mt :: "regex \<Rightarrow> string \<Rightarrow> (string \<Rightarrow> string option) \<Rightarrow> string option" where
  "mt (One a) s k = (case s of [] \<Rightarrow> None | c # cs \<Rightarrow> if atom_ok a c then k cs else None)"
| "mt (Str p) s k = (if startswith s p then k (drop (length p) s) else None)"
| "mt (Star a) s k = star a s k"
| "mt (Plus a) s k = (case s of [] \<Rightarrow> None | c # cs \<Rightarrow> if atom_ok a c then star a cs k else None)"
| "mt (Opt r) s k = (case mt r s k of Some x \<Rightarrow> Some x | None \<Rightarrow> k s)"
| "mt (Alt r1 r2) s k = (case mt r1 s k of Some x \<Rightarrow> Some x | None \<Rightarrow> mt r2 s k)"
| "mt (Seq r1 r2) s k = mt r1 s (\<lambda>s'. mt r2 s' k)"
| "mt Eol s k = (if s = [] \<or> s = [NL] then k s else None)"

text \<open>
  \<open>re.match(p, s)\<close>: the pattern at the start of \<open>s\<close>; the result is the text after
  the match, \<open>None\<close> when there is no match.
\<close>

definition re_match :: "regex \<Rightarrow> string \<Rightarrow> string option" where
  "re_match r s = mt r s Some"

text \<open>\<open>re.search(p, s)\<close>: the leftmost position where the pattern matches.\<close>

fun re_search :: "regex \<Rightarrow> string \<Rightarrow> string option" where
  "re_search r [] = mt r [] Some"
| "re_search r (c # cs) =
     (case mt r (c # cs) Some of Some rest \<Rightarrow> Some rest | None \<Rightarrow> re_search r cs)"

text \<open>
  \<open>re.sub(p, repl, s)\<close> for a replacement without group references: the matches are
  found from left to right, none overlapping the one before; an empty match is
  replaced too and the scan then moves one character on.
\<close>

function re_sub :: "regex \<Rightarrow> string \<Rightarrow> string \<Rightarrow> string" where
  "re_sub r repl s =
     (case mt r s Some of
        Some rest \<Rightarrow>
          (if length rest < length s then repl @ re_sub r repl rest
           else repl @ (case s of [] \<Rightarrow> [] | c # cs \<Rightarrow> c # re_sub r repl cs))
      | None \<Rightarrow> (case s of [] \<Rightarrow> [] | c # cs \<Rightarrow> c # re_sub r repl cs))"
  by pat_completeness auto
termination
  by (relation "measure (\<lambda>(r, repl, s). length s)") auto

declare re_sub.simps [simp del]

section \<open>The sniffers\<close>

text \<open>\<open>{(RED|CTG|TLE)$\<close>\<close>

definition amos_re :: regex where
  "amos_re = Seq (One (Lit CHR ''{'')) (Seq (Alt (Str ''RED'') (Alt (Str ''CTG'') (Str ''TLE''))) Eol)"

text \<open>
  \<open>Amos.sniff_prefix\<close>, on the lines the prefix's line iterator yields.  An empty
  line ends the loop; a line that does not match lets the loop go on.
\<close>

fun Amos_sniff_prefix :: "string list \<Rightarrow> bool" where
  "Amos_sniff_prefix [] = False"
| "Amos_sniff_prefix (line # rest) =
     (if line = [] then False
      else let l = strip line in
        if l \<noteq> [] \<and> startswith l ''{'' \<and> re_match amos_re l \<noteq> None then True
        else Amos_sniff_prefix rest)"

text \<open>\<open>>[^\t]+\t\d+\t\d+$\<close>\<close>

definition sequences_re :: regex where
  "sequences_re =
     Seq (One (Lit CHR ''>'')) (Seq (Plus (NotChar TAB)) (Seq (One (Lit TAB))
       (Seq (Plus Digit) (Seq (One (Lit TAB)) (Seq (Plus Digit) Eol)))))"

text \<open>\<open>fh.readline()\<close> on the lines not yet read: the empty string at the end.\<close>

fun readline :: "string list \<Rightarrow> string" where
  "readline [] = []"
| "readline (l # rest) = l"

text \<open>
  \<open>Sequences.sniff_prefix\<close>, on the lines of the prefix's text stream.  Blank lines
  are skipped; the first line that is not blank decides.
\<close>

fun Sequences_sniff_prefix :: "string list \<Rightarrow> bool" where
  "Sequences_sniff_prefix [] = False"
| "Sequences_sniff_prefix (l # fh) =
     (let line = strip l in
      if line \<noteq> [] then
        (if startswith line ''>'' then
           (if re_match sequences_re line = None then False
            else let line2 = strip (readline fh) in
              if line2 = [] \<or> startswith line2 ''>'' then False else True)
         else False)
      else Sequences_sniff_prefix fh)"

text \<open>\<open>\d+\t\d+\t\d+$\<close> and \<open>ROADMAP \d+$\<close>\<close>

definition roadmaps_re :: regex where
  "roadmaps_re =
     Seq (Plus Digit) (Seq (One (Lit TAB)) (Seq (Plus Digit) (Seq (One (Lit TAB))
       (Seq (Plus Digit) Eol))))"

definition roadmap_line_re :: regex where
  "roadmap_line_re = Seq (Str ''ROADMAP '') (Seq (Plus Digit) Eol)"

text \<open>
  \<open>Roadmaps.sniff_prefix\<close>.  Both branches of the test on the first line return, so
  the loop body runs at most once.
\<close>

fun Roadmaps_sniff_prefix :: "string list \<Rightarrow> bool" where
  "Roadmaps_sniff_prefix [] = False"
| "Roadmaps_sniff_prefix (l # fh) =
     (let line = strip l in
      if line \<noteq> [] then
        (if re_match roadmaps_re line = None then False
         else let line2 = strip (readline fh) in re_match roadmap_line_re line2 \<noteq> None)
      else False)"

section \<open>The Velvet composite datatype\<close>

text \<open>The exceptions the model distinguishes.\<close>

datatype error = FileNotFoundError | UnicodeDecodeError | PermissionError

text \<open>
  The files the code opens.  \<open>read_file\<close> is the outcome of opening a path for
  reading and reading all of it; \<open>writable\<close> tells whether a path can be opened for
  writing.
\<close>

record filesystem =
  read_file :: "string \<Rightarrow> error + string"
  writable :: "string \<Rightarrow> bool"

text \<open>\<open>with open(path) as f: f.read(n)\<close>\<close>

definition open_read :: "filesystem \<Rightarrow> string \<Rightarrow> nat \<Rightarrow> error + string" where
  "open_read fs path n = (case read_file fs path of Inl e \<Rightarrow> Inl e | Inr s \<Rightarrow> Inr (take n s))"

text \<open>\<open>with open(path, "w") as f: f.write(s)\<close>\<close>

definition open_write :: "filesystem \<Rightarrow> string \<Rightarrow> string \<Rightarrow> error + filesystem" where
  "open_write fs path s =
     (if writable fs path then Inr (fs\<lparr>read_file := (read_file fs)(path := Inr s)\<rparr>)
      else Inl PermissionError)"

text \<open>\<open>os.path.join(a, b)\<close> on two components (POSIX).\<close>

definition os_path_join :: "string \<Rightarrow> string \<Rightarrow> string" where
  "os_path_join a b =
     (if startswith b ''/'' then b
      else if a = [] \<or> last a = CHR ''/'' then a @ b
      else a @ ''/'' @ b)"

text \<open>\<open>"\n".join(xs)\<close>\<close>

fun join_lines :: "string list \<Rightarrow> string" where
  "join_lines [] = []"
| "join_lines [x] = x"
| "join_lines (x # y # ys) = x @ [NL] @ join_lines (y # ys)"

text \<open>The metadata elements the class declares, and the dataset fields the code uses.\<close>

record metadata =
  base_name :: string
  paired_end_reads :: bool
  long_reads :: bool
  short2_reads :: bool

record dataset =
  extra_files_path :: string
  file_name :: string
  metadata :: metadata
  info :: string

text \<open>
  Modelled from the spec: the host's composite-file registry (\<open>add_composite_file\<close>,
  \<open>get_composite_files\<close>) is not part of the module.  The spec describes it as an ordered
  collection of declared sub-files, insertion order preserved for display, each with a
  name, an optional description and an optional flag.
\<close>

record composite_file =
  mimetype :: "string option"
  description :: "string option"
  optional :: bool
  substitute_name_with_metadata :: "string option"
  is_binary :: bool

type_synonym composite_files = "(string \<times> composite_file) list"

fun add_composite_file :: "composite_files \<Rightarrow> string \<Rightarrow> composite_file \<Rightarrow> composite_files" where
  "add_composite_file [] name cf = [(name, cf)]"
| "add_composite_file ((n, c) # cfs) name cf =
     (if n = name then (n, cf) # cfs else (n, c) # add_composite_file cfs name cf)"

definition get_composite_files :: "composite_files \<Rightarrow> dataset \<Rightarrow> composite_files" where
  "get_composite_files cfs d = cfs"

text \<open>\<open>Velvet.__init__\<close>: the three declared sub-files.\<close>

definition Velvet_init :: composite_files where
  "Velvet_init =
     add_composite_file
       (add_composite_file
         (add_composite_file []
           ''Sequences'' \<lparr>mimetype = Some ''text/html'', description = Some ''Sequences'',
              optional = False, substitute_name_with_metadata = None, is_binary = False\<rparr>)
         ''Roadmaps'' \<lparr>mimetype = Some ''text/html'', description = Some ''Roadmaps'',
            optional = False, substitute_name_with_metadata = None, is_binary = False\<rparr>)
       ''Log'' \<lparr>mimetype = Some ''text/html'', description = Some ''Log'',
          optional = True, substitute_name_with_metadata = None, is_binary = False\<rparr>"

text \<open>The list item both renderers append for one sub-file.\<close>

definition list_item :: "string \<Rightarrow> composite_file \<Rightarrow> string" where
  "list_item fn cf =
     (let opt_text = (if optional cf then '' (optional)'' else []) in
      case description cf of
        Some d \<Rightarrow>
          (if d \<noteq> [] then
             ''<li><a href='' @ [DQ] @ fn @ [DQ] @ '' type='' @ [DQ] @ ''text/plain'' @ [DQ] @ ''>''
               @ fn @ '' ('' @ d @ '')</a>'' @ opt_text @ ''</li>''
           else
             ''<li><a href='' @ [DQ] @ fn @ [DQ] @ '' type='' @ [DQ] @ ''text/plain'' @ [DQ] @ ''>''
               @ fn @ ''</a>'' @ opt_text @ ''</li>'')
      | None \<Rightarrow>
          ''<li><a href='' @ [DQ] @ fn @ [DQ] @ '' type='' @ [DQ] @ ''text/plain'' @ [DQ] @ ''>''
            @ fn @ ''</a>'' @ opt_text @ ''</li>'')"

text \<open>The loop of \<open>generate_primary_file\<close> over the sub-files, appending to \<open>rval\<close>.\<close>

fun generate_items :: "string list \<Rightarrow> composite_files \<Rightarrow> string list" where
  "generate_items rval [] = rval"
| "generate_items rval ((composite_name, composite_file) # cfs) =
     generate_items (rval @ [list_item composite_name composite_file]) cfs"

definition generate_primary_file :: "composite_files \<Rightarrow> dataset \<Rightarrow> string" where
  "generate_primary_file self d =
     (let rval = [''<html><head><title>Velvet Galaxy Composite Dataset </title></head><p/>''];
          rval = rval @ [''<div>This composite dataset is composed of the following files:<p/><ul>''];
          rval = generate_items rval (get_composite_files self d);
          rval = rval @ [''</ul></div></html>'']
      in join_lines rval)"

text \<open>The patterns of \<open>regenerate_primary_file\<close>.\<close>

definition path_re :: regex where
  "path_re = Seq (One (Lit CHR ''/'')) (Seq (Star NonSpace) (One (Lit CHR ''/'')))"

definition paired_re :: regex where
  "paired_re = Seq (One (Lit CHR ''-'')) (Seq (Alt (Str ''short'') (Str ''long'')) (Str ''Paired''))"

definition long_re :: regex where
  "long_re = Str ''-long''"

definition short2_re :: regex where
  "short2_re = Seq (Str ''-short'') (Seq (Opt (Str ''Paired'')) (One (Lit CHR ''2'')))"

definition velveth_re :: regex where
  "velveth_re = Seq (Star Dot) (Seq (Str ''velveth '') (Plus NonSpace))"

definition newline_re :: regex where
  "newline_re = One (Lit NL)"

definition Log_re :: regex where
  "Log_re = Str ''Log''"

text \<open>
  The body of the \<open>try\<close> block: the dataset with its metadata and info set, and
  \<open>gen_msg\<close>.  Only opening and reading the file can raise, and they come before the
  first assignment to the dataset (\<open>extra_files_path\<close> is a plain field here, and the
  regular expression functions do not raise on a \<open>str\<close>).
\<close>

definition read_log :: "dataset \<Rightarrow> filesystem \<Rightarrow> error + (dataset \<times> string)" where
  "read_log d fs =
     (let efp = extra_files_path d;
          log_path = os_path_join efp ''Log''
      in case open_read fs log_path 1000 of
        Inl e \<Rightarrow> Inl e
      | Inr log_content \<Rightarrow>
          (let log_msg = re_sub path_re [] log_content;
               paired = (re_search paired_re log_msg \<noteq> None);
               d = d\<lparr>metadata := (metadata d)\<lparr>paired_end_reads := paired\<rparr>\<rparr>;
               long = (re_search long_re log_msg \<noteq> None);
               d = d\<lparr>metadata := (metadata d)\<lparr>long_reads := long\<rparr>\<rparr>;
               short2 = (re_search short2_re log_msg \<noteq> None);
               d = d\<lparr>metadata := (metadata d)\<lparr>short2_reads := short2\<rparr>\<rparr>;
               d = d\<lparr>info := re_sub velveth_re ''hash_length'' (re_sub newline_re '' '' log_msg)\<rparr>;
               gen_msg = [];
               gen_msg = (if paired then gen_msg @ '' Paired-End Reads'' else gen_msg);
               gen_msg = (if long then gen_msg @ '' Long Reads'' else gen_msg);
               gen_msg = (if length gen_msg > 0 then ''Uses: '' @ gen_msg else gen_msg)
           in Inr (d, gen_msg)))"

text \<open>The loop of \<open>regenerate_primary_file\<close> over the sub-files.\<close>

fun regenerate_items :: "string list \<Rightarrow> composite_files \<Rightarrow> string list" where
  "regenerate_items rval [] = rval"
| "regenerate_items rval ((composite_name, composite_file) # cfs) =
     (if re_search Log_re composite_name = None
      then regenerate_items (rval @ [list_item composite_name composite_file]) cfs
      else regenerate_items rval cfs)"

text \<open>
  \<open>regenerate_primary_file\<close>: \<open>except Exception\<close> keeps the dataset as it was and
  \<open>gen_msg\<close> empty; the page is then written to the dataset's file.  The result is
  the dataset and the file system after the call, or the exception that opening the
  dataset's file for writing raised.
\<close>

definition regenerate_primary_file ::
  "composite_files \<Rightarrow> dataset \<Rightarrow> filesystem \<Rightarrow> error + (dataset \<times> filesystem)" where
  "regenerate_primary_file self d fs =
     (let (d, gen_msg) = (case read_log d fs of Inl e \<Rightarrow> (d, []) | Inr r \<Rightarrow> r);
          rval = [''<html><head><title>Velvet Galaxy Composite Dataset </title></head><p/>''];
          rval = rval @ [''<div>Generated:<p/> '' @ gen_msg @ '' </div>''];
          rval = rval @ [''<div>Velveth dataset:<p/><ul>''];
          rval = regenerate_items rval (get_composite_files self d);
          rval = rval @ [''</ul></div></html>'']
      in case open_write fs (file_name d) (join_lines rval @ [NL]) of
        Inl e \<Rightarrow> Inl e
      | Inr fs' \<Rightarrow> Inr (d, fs'))"

text \<open>
  A file system for the examples: no file can be read, every path can be written.
\<close>

definition no_files :: filesystem where
  "no_files = \<lparr>read_file = (\<lambda>p. Inl FileNotFoundError), writable = (\<lambda>p. True)\<rparr>"

section \<open>The language of a pattern\<close>

text \<open>
  What a pattern matches, without the order in which the matcher tries: \<open>matches r u v\<close>
  says that \<open>r\<close> can consume \<open>u\<close> when \<open>v\<close> is the text that follows (\<open>$\<close> looks at
  it: the end of the text, or a last newline).
\<close>

fun matches :: "regex \<Rightarrow> string \<Rightarrow> string \<Rightarrow> bool" where
  "matches (One a) u v = (\<exists>c. u = [c] \<and> atom_ok a c)"
| "matches (Str p) u v = (u = p)"
| "matches (Star a) u v = list_all (atom_ok a) u"
| "matches (Plus a) u v = (u \<noteq> [] \<and> list_all (atom_ok a) u)"
| "matches (Opt r) u v = (u = [] \<or> matches r u v)"
| "matches (Alt r1 r2) u v = (matches r1 u v \<or> matches r2 u v)"
| "matches (Seq r1 r2) u v = (\<exists>u1 u2. u = u1 @ u2 \<and> matches r1 u1 (u2 @ v) \<and> matches r2 u2 v)"
| "matches Eol u v = (u = [] \<and> (v = [] \<or> v = [NL]))"

section \<open>Properties\<close>

subsection \<open>The matcher and the language\<close>

lemma star_sound:
  "star a s k = Some x \<Longrightarrow> \<exists>u v. s = u @ v \<and> list_all (atom_ok a) u \<and> k v = Some x"
proof (induction s)
  case Nil
  then show ?case by simp
next
  case (Cons c cs)
  show ?case
  proof (cases "atom_ok a c \<and> star a cs k \<noteq> None")
    case True
    then obtain y where y: "star a cs k = Some y" by auto
    with True Cons.prems have "y = x" by simp
    with y Cons.IH obtain u v where "cs = u @ v" "list_all (atom_ok a) u" "k v = Some x"
      by blast
    with True have "c # cs = (c # u) @ v \<and> list_all (atom_ok a) (c # u) \<and> k v = Some x"
      by simp
    then show ?thesis by blast
  next
    case False
    with Cons.prems have "k (c # cs) = Some x" by (auto split: if_splits option.splits)
    then have "c # cs = [] @ (c # cs) \<and> list_all (atom_ok a) [] \<and> k (c # cs) = Some x"
      by simp
    then show ?thesis by blast
  qed
qed

lemma star_complete:
  "list_all (atom_ok a) u \<Longrightarrow> k v \<noteq> None \<Longrightarrow> star a (u @ v) k \<noteq> None"
proof (induction u)
  case Nil
  then show ?case by (cases v) (auto split: option.splits)
next
  case (Cons c u)
  then show ?case by (auto split: option.splits)
qed

lemma startswith_append: "startswith (p @ v) p"
  by (simp add: startswith_def)

lemma startswith_split: "startswith s p \<Longrightarrow> s = p @ drop (length p) s"
  by (metis append_take_drop_id startswith_def)

lemma mt_sound:
  "mt r s k = Some x \<Longrightarrow> \<exists>u v. s = u @ v \<and> matches r u v \<and> k v = Some x"
proof (induction r arbitrary: s k x)
  case (One a)
  then obtain c cs where s: "s = c # cs" "atom_ok a c" "k cs = Some x"
    by (cases s) (auto split: if_splits)
  then have "s = [c] @ cs \<and> matches (One a) [c] cs \<and> k cs = Some x" by simp
  then show ?case by blast
next
  case (Str p)
  then show ?case using startswith_split [of s p] by (auto split: if_splits)
next
  case (Star a)
  then show ?case using star_sound [of a s k x] by simp
next
  case (Plus a)
  then obtain c cs where s: "s = c # cs" "atom_ok a c" "star a cs k = Some x"
    by (cases s) (auto split: if_splits)
  from star_sound [OF s(3)] obtain u v where "cs = u @ v" "list_all (atom_ok a) u" "k v = Some x"
    by blast
  with s have "s = (c # u) @ v \<and> matches (Plus a) (c # u) v \<and> k v = Some x" by simp
  then show ?case by blast
next
  case (Opt r)
  show ?case
  proof (cases "mt r s k")
    case None
    with Opt.prems have "s = [] @ s \<and> matches (Opt r) [] s \<and> k s = Some x" by simp
    then show ?thesis by blast
  next
    case (Some y)
    with Opt.prems have "mt r s k = Some x" by simp
    from Opt.IH [OF this] show ?thesis by auto
  qed
next
  case (Alt r1 r2)
  show ?case
  proof (cases "mt r1 s k")
    case None
    with Alt.prems have "mt r2 s k = Some x" by simp
    from Alt.IH(2) [OF this] show ?thesis by auto
  next
    case (Some y)
    with Alt.prems have "mt r1 s k = Some x" by simp
    from Alt.IH(1) [OF this] show ?thesis by auto
  qed
next
  case (Seq r1 r2)
  then have "mt r1 s (\<lambda>s'. mt r2 s' k) = Some x" by simp
  from Seq.IH(1) [OF this] obtain u1 v1 where
    1: "s = u1 @ v1" "matches r1 u1 v1" "mt r2 v1 k = Some x" by blast
  from Seq.IH(2) [OF 1(3)] obtain u2 v where
    2: "v1 = u2 @ v" "matches r2 u2 v" "k v = Some x" by blast
  from 1 2 have "s = (u1 @ u2) @ v \<and> matches (Seq r1 r2) (u1 @ u2) v \<and> k v = Some x"
    by auto
  then show ?case by blast
next
  case Eol
  then have "s = [] @ s \<and> matches Eol [] s \<and> k s = Some x" by (auto split: if_splits)
  then show ?case by blast
qed

lemma mt_complete:
  "matches r u v \<Longrightarrow> k v \<noteq> None \<Longrightarrow> mt r (u @ v) k \<noteq> None"
proof (induction r arbitrary: u v k)
  case (One a)
  then show ?case by auto
next
  case (Str p)
  then show ?case by (simp add: startswith_append)
next
  case (Star a)
  then show ?case using star_complete [of a u k v] by simp
next
  case (Plus a)
  then obtain c cs where "u = c # cs" "atom_ok a c" "list_all (atom_ok a) cs"
    by (cases u) auto
  with Plus show ?case using star_complete [of a cs k v] by simp
next
  case (Opt r)
  show ?case
  proof (cases "u = []")
    case True
    with Opt.prems show ?thesis by (cases "mt r v k") auto
  next
    case False
    with Opt.prems have "matches r u v" by simp
    from Opt.IH [OF this, of k] Opt.prems(2) show ?thesis by auto
  qed
next
  case (Alt r1 r2)
  show ?case
  proof (cases "mt r1 (u @ v) k")
    case None
    with Alt.IH(1) [of u v k] Alt.prems(2) have "\<not> matches r1 u v" by auto
    with Alt.prems(1) have "matches r2 u v" by simp
    with Alt.IH(2) [of u v k] Alt.prems(2) None show ?thesis by simp
  next
    case (Some y)
    then show ?thesis by simp
  qed
next
  case (Seq r1 r2)
  then obtain u1 u2 where u: "u = u1 @ u2" "matches r1 u1 (u2 @ v)" "matches r2 u2 v"
    by auto
  from Seq.IH(2) [OF u(3), of k] Seq.prems(2) have "mt r2 (u2 @ v) k \<noteq> None" by simp
  with Seq.IH(1) [OF u(2), of "\<lambda>s'. mt r2 s' k"] show ?case
    using u by simp
next
  case Eol
  then show ?case by auto
qed

lemma re_match_iff: "(re_match r s \<noteq> None) = (\<exists>u v. s = u @ v \<and> matches r u v)"
proof
  assume "re_match r s \<noteq> None"
  then obtain x where "mt r s Some = Some x" by (auto simp: re_match_def)
  from mt_sound [OF this] show "\<exists>u v. s = u @ v \<and> matches r u v" by blast
next
  assume "\<exists>u v. s = u @ v \<and> matches r u v"
  then obtain u v where "s = u @ v" "matches r u v" by blast
  then show "re_match r s \<noteq> None" using mt_complete [of r u v Some] by (simp add: re_match_def)
qed

lemma re_search_iff: "(re_search r s \<noteq> None) = (\<exists>p u v. s = p @ u @ v \<and> matches r u v)"
proof (induction s)
  case Nil
  have "(mt r [] Some \<noteq> None) = (\<exists>u v. [] = u @ v \<and> matches r u v)"
    using re_match_iff [of r "[]"] by (simp add: re_match_def)
  then show ?case by simp
next
  case (Cons c cs)
  have m: "(mt r (c # cs) Some \<noteq> None) = (\<exists>u v. c # cs = u @ v \<and> matches r u v)"
    using re_match_iff [of r "c # cs"] by (simp add: re_match_def)
  show ?case
  proof
    assume "re_search r (c # cs) \<noteq> None"
    then consider "mt r (c # cs) Some \<noteq> None" | "re_search r cs \<noteq> None"
      by (auto split: option.splits)
    then show "\<exists>p u v. c # cs = p @ u @ v \<and> matches r u v"
    proof cases
      case 1
      with m obtain u v where "c # cs = [] @ u @ v \<and> matches r u v" by auto
      then show ?thesis by blast
    next
      case 2
      with Cons obtain p u v where "cs = p @ u @ v" "matches r u v" by blast
      then have "c # cs = (c # p) @ u @ v \<and> matches r u v" by simp
      then show ?thesis by blast
    qed
  next
    assume "\<exists>p u v. c # cs = p @ u @ v \<and> matches r u v"
    then obtain p u v where puv: "c # cs = p @ u @ v" "matches r u v" by blast
    show "re_search r (c # cs) \<noteq> None"
    proof (cases p)
      case Nil
      with puv m have "mt r (c # cs) Some \<noteq> None" by auto
      then show ?thesis by (auto split: option.splits)
    next
      case (Cons c' p')
      with puv have "cs = p' @ u @ v" by simp
      with puv Cons.IH have "re_search r cs \<noteq> None" by blast
      then show ?thesis by (auto split: option.splits)
    qed
  qed
qed

lemma last_dropWhile: "dropWhile P xs \<noteq> [] \<Longrightarrow> last (dropWhile P xs) = last xs"
  by (induction xs) auto

lemma strip_last: "strip s \<noteq> [] \<Longrightarrow> \<not> is_space (last (strip s))"
proof -
  assume a: "strip s \<noteq> []"
  let ?t = "dropWhile is_space (rev (dropWhile is_space s))"
  from a have "?t \<noteq> []" by (simp add: strip_def)
  then have "\<not> is_space (hd ?t)" by (rule hd_dropWhile)
  moreover from \<open>?t \<noteq> []\<close> have "last (strip s) = hd ?t" by (simp add: strip_def last_rev)
  ultimately show ?thesis by simp
qed

lemma strip_no_newline: "strip s = u @ v \<Longrightarrow> v = [] \<or> v = [NL] \<Longrightarrow> u \<noteq> [] \<Longrightarrow> v = []"
proof (rule ccontr)
  assume s: "strip s = u @ v" and v: "v = [] \<or> v = [NL]" and "v \<noteq> []"
  then have "v = [NL]" by simp
  with s have "strip s \<noteq> []" "last (strip s) = NL" by simp_all
  with strip_last [of s] show False by (simp add: is_space_def)
qed

lemma matches_amos:
  "matches amos_re u v = (u \<in> {''{RED'', ''{CTG'', ''{TLE''} \<and> (v = [] \<or> v = [NL]))"
  by (auto simp: amos_re_def)

lemma amos_line:
  "(strip line \<noteq> [] \<and> startswith (strip line) ''{'' \<and> re_match amos_re (strip line) \<noteq> None)
     = (strip line \<in> {''{RED'', ''{CTG'', ''{TLE''})"
proof
  assume "strip line \<noteq> [] \<and> startswith (strip line) ''{'' \<and> re_match amos_re (strip line) \<noteq> None"
  then obtain u v where uv: "strip line = u @ v" "matches amos_re u v"
    using re_match_iff [of amos_re "strip line"] by blast
  then have u: "u \<in> {''{RED'', ''{CTG'', ''{TLE''}" and v: "v = [] \<or> v = [NL]"
    by (simp_all add: matches_amos)
  from u have "u \<noteq> []" by auto
  from strip_no_newline [OF uv(1) v this] uv(1) u
  show "strip line \<in> {''{RED'', ''{CTG'', ''{TLE''}" by simp
next
  assume a: "strip line \<in> {''{RED'', ''{CTG'', ''{TLE''}"
  then have "strip line = strip line @ [] \<and> matches amos_re (strip line) []"
    by (simp add: matches_amos)
  then have "re_match amos_re (strip line) \<noteq> None"
    using re_match_iff [of amos_re "strip line"] by blast
  with a show "strip line \<noteq> [] \<and> startswith (strip line) ''{'' \<and> re_match amos_re (strip line) \<noteq> None"
    by (auto simp: startswith_def)
qed

text \<open>
  C10: in the Amos sniffer a line that is not blank and fails the token test does not end
  the scan.  The sniffer returns true exactly when some line before the end of the input
  (before the first empty string the iterator yields) strips to \<open>{RED\<close>, \<open>{CTG\<close> or
  \<open>{TLE\<close>, whatever the lines before it are.
\<close>

theorem Amos_sniff_prefix_any_line:
  "Amos_sniff_prefix ls =
     (\<exists>l \<in> set (takeWhile (\<lambda>l. l \<noteq> []) ls). strip l \<in> {''{RED'', ''{CTG'', ''{TLE''})"
proof (induction ls)
  case Nil
  then show ?case by simp
next
  case (Cons line rest)
  show ?case
  proof (cases "line = []")
    case True
    then show ?thesis by simp
  next
    case False
    with Cons amos_line [of line] show ?thesis by (auto simp: Let_def)
  qed
qed

theorem Amos_sniff_prefix_any_line_witness:
  "Amos_sniff_prefix [''foo'' @ [NL], [NL], '' {CTG '' @ [NL], ''{FOO'' @ [NL]] \<and>
   strip ('' {CTG '' @ [NL]) = ''{CTG'' \<and> strip (''foo'' @ [NL]) = ''foo''"
  using Amos_sniff_prefix_any_line [of "[''foo'' @ [NL], [NL], '' {CTG '' @ [NL], ''{FOO'' @ [NL]]"]
  by (simp add: strip_def is_space_def)

text \<open>
  C1: the first line that is not blank is \<open>foo\<close>, which is none of the tokens, and the
  sniffer still returns true, on the later line \<open>{RED\<close>.
\<close>

theorem Amos_later_line: "Amos_sniff_prefix (readlines (''foo'' @ [NL] @ ''{RED'' @ [NL])) = True"
  by (simp add: readlines_def strip_def is_space_def startswith_def re_match_def amos_re_def)


subsection \<open>The sniffers\<close>

lemma first_nonblank:
  "(\<exists>blank l rest. ls = blank @ l # rest \<and> list_all P blank \<and> \<not> P l \<and> Q l rest)
     = (case dropWhile P ls of [] \<Rightarrow> False | l # rest \<Rightarrow> Q l rest)"
proof (induction ls)
  case Nil
  then show ?case by simp
next
  case (Cons a ls)
  show ?case
  proof (cases "P a")
    case True
    have "(\<exists>blank l rest. a # ls = blank @ l # rest \<and> list_all P blank \<and> \<not> P l \<and> Q l rest)
        = (\<exists>blank l rest. ls = blank @ l # rest \<and> list_all P blank \<and> \<not> P l \<and> Q l rest)"
    proof
      assume "\<exists>blank l rest. a # ls = blank @ l # rest \<and> list_all P blank \<and> \<not> P l \<and> Q l rest"
      then obtain blank l rest where
        d: "a # ls = blank @ l # rest" "list_all P blank" "\<not> P l" "Q l rest" by blast
      with True obtain b' where "blank = a # b'" by (cases blank) auto
      with d have "ls = b' @ l # rest \<and> list_all P b' \<and> \<not> P l \<and> Q l rest" by simp
      then show "\<exists>blank l rest. ls = blank @ l # rest \<and> list_all P blank \<and> \<not> P l \<and> Q l rest"
        by blast
    next
      assume "\<exists>blank l rest. ls = blank @ l # rest \<and> list_all P blank \<and> \<not> P l \<and> Q l rest"
      then obtain blank l rest where
        d: "ls = blank @ l # rest" "list_all P blank" "\<not> P l" "Q l rest" by blast
      with True have "a # ls = (a # blank) @ l # rest \<and> list_all P (a # blank) \<and> \<not> P l \<and> Q l rest"
        by simp
      then show "\<exists>blank l rest. a # ls = blank @ l # rest \<and> list_all P blank \<and> \<not> P l \<and> Q l rest"
        by blast
    qed
    with True Cons show ?thesis by simp
  next
    case False
    have "(\<exists>blank l rest. a # ls = blank @ l # rest \<and> list_all P blank \<and> \<not> P l \<and> Q l rest)
        = Q a ls"
    proof
      assume "\<exists>blank l rest. a # ls = blank @ l # rest \<and> list_all P blank \<and> \<not> P l \<and> Q l rest"
      then obtain blank l rest where
        d: "a # ls = blank @ l # rest" "list_all P blank" "\<not> P l" "Q l rest" by blast
      with False have "blank = []" by (cases blank) auto
      with d show "Q a ls" by simp
    next
      assume "Q a ls"
      with False have "a # ls = [] @ a # ls \<and> list_all P [] \<and> \<not> P a \<and> Q a ls" by simp
      then show "\<exists>blank l rest. a # ls = blank @ l # rest \<and> list_all P blank \<and> \<not> P l \<and> Q l rest"
        by blast
    qed
    with False show ?thesis by simp
  qed
qed

lemma matches_seq_one:
  "matches (Seq (One (Lit c)) r) u v = (\<exists>u'. u = c # u' \<and> matches r u' v)"
  by auto

lemma matches_seq_str:
  "matches (Seq (Str p) r) u v = (\<exists>u'. u = p @ u' \<and> matches r u' v)"
  by auto

lemma matches_seq_plus:
  "matches (Seq (Plus a) r) u v =
     (\<exists>u1 u2. u = u1 @ u2 \<and> u1 \<noteq> [] \<and> list_all (atom_ok a) u1 \<and> matches r u2 v)"
  by auto

lemma matches_plus_eol:
  "matches (Seq (Plus a) Eol) u v = (u \<noteq> [] \<and> list_all (atom_ok a) u \<and> (v = [] \<or> v = [NL]))"
  by auto

lemma list_all_digit: "list_all (atom_ok Digit) u = list_all is_digit u"
  by (simp add: list_all_iff)

lemma matches_three_ints:
  "matches roadmaps_re u v =
     ((\<exists>a b c. u = a @ [TAB] @ b @ [TAB] @ c \<and> a \<noteq> [] \<and> list_all is_digit a \<and>
         b \<noteq> [] \<and> list_all is_digit b \<and> c \<noteq> [] \<and> list_all is_digit c) \<and> (v = [] \<or> v = [NL]))"
  unfolding roadmaps_re_def matches_seq_one matches_seq_plus list_all_digit matches.simps(8)
  apply (rule iffI)
   apply (elim exE conjE)
   apply (simp, blast)
  apply (elim exE conjE)
  apply (simp, blast)
  done

lemma matches_roadmap_line:
  "matches roadmap_line_re u v =
     ((\<exists>n. u = ''ROADMAP '' @ n \<and> n \<noteq> [] \<and> list_all is_digit n) \<and> (v = [] \<or> v = [NL]))"
  unfolding roadmap_line_re_def matches_seq_str matches_plus_eol list_all_digit
  by (auto simp del: matches.simps)

lemma list_all_not_tab: "list_all (atom_ok (NotChar TAB)) u = (TAB \<notin> set u)"
  by (auto simp: list_all_iff)

lemma matches_sequences:
  "matches sequences_re u v =
     ((\<exists>name idx cat. u = ''>'' @ name @ [TAB] @ idx @ [TAB] @ cat \<and> name \<noteq> [] \<and> TAB \<notin> set name \<and>
         idx \<noteq> [] \<and> list_all is_digit idx \<and> cat \<noteq> [] \<and> list_all is_digit cat) \<and> (v = [] \<or> v = [NL]))"
  unfolding sequences_re_def matches_seq_one matches_seq_plus list_all_digit
    list_all_not_tab matches.simps(8)
  apply (rule iffI)
   apply (elim exE conjE)
   apply (simp, blast)
  apply (elim exE conjE)
  apply (simp, blast)
  done

lemma re_match_stripped:
  assumes "\<And>u v. matches r u v = (L u \<and> (v = [] \<or> v = [NL]))" and "\<not> L []"
  shows "(re_match r (strip l) \<noteq> None) = L (strip l)"
proof
  assume "re_match r (strip l) \<noteq> None"
  then obtain u v where uv: "strip l = u @ v" "matches r u v"
    using re_match_iff [of r "strip l"] by blast
  with assms have u: "L u" "v = [] \<or> v = [NL]" "u \<noteq> []" by auto
  from strip_no_newline [OF uv(1) u(2) u(3)] uv(1) u(1) show "L (strip l)" by simp
next
  assume "L (strip l)"
  with assms(1) have "strip l = strip l @ [] \<and> matches r (strip l) []" by simp
  then show "re_match r (strip l) \<noteq> None" using re_match_iff [of r "strip l"] by blast
qed

lemma sequences_line:
  "(re_match sequences_re (strip l) \<noteq> None) =
     (\<exists>name idx cat. strip l = ''>'' @ name @ [TAB] @ idx @ [TAB] @ cat \<and> name \<noteq> [] \<and>
        TAB \<notin> set name \<and> idx \<noteq> [] \<and> list_all is_digit idx \<and> cat \<noteq> [] \<and> list_all is_digit cat)"
  by (rule re_match_stripped [where r = sequences_re, OF matches_sequences]) simp

lemma roadmaps_line:
  "(re_match roadmaps_re (strip l) \<noteq> None) =
     (\<exists>a b c. strip l = a @ [TAB] @ b @ [TAB] @ c \<and> a \<noteq> [] \<and> list_all is_digit a \<and>
         b \<noteq> [] \<and> list_all is_digit b \<and> c \<noteq> [] \<and> list_all is_digit c)"
  by (rule re_match_stripped [where r = roadmaps_re, OF matches_three_ints]) simp

lemma roadmap_line_line:
  "(re_match roadmap_line_re (strip l) \<noteq> None) =
     (\<exists>n. strip l = ''ROADMAP '' @ n \<and> n \<noteq> [] \<and> list_all is_digit n)"
  by (rule re_match_stripped [where r = roadmap_line_re, OF matches_roadmap_line]) simp

lemma Sequences_dropWhile:
  assumes "\<And>l. (startswith (strip l) ''>'' \<and> re_match sequences_re (strip l) \<noteq> None) = H l"
  shows "Sequences_sniff_prefix ls =
     (case dropWhile (\<lambda>b. strip b = []) ls of
        [] \<Rightarrow> False
      | l # rest \<Rightarrow>
          H l \<and> strip (readline rest) \<noteq> [] \<and> \<not> startswith (strip (readline rest)) ''>'')"
proof (induction ls)
  case Nil
  then show ?case by simp
next
  case (Cons l fh)
  show ?case
  proof (cases "strip l = []")
    case True
    with Cons show ?thesis by simp
  next
    case False
    then show ?thesis using assms [of l, symmetric] by (auto simp: Let_def)
  qed
qed

text \<open>
  C3: the Sequences sniffer returns true exactly when the lines are some blank lines
  (blank after stripping), then a line that strips to \<open>>\<close>, one or more characters that
  are not tabs, a tab, one or more digits, a tab, one or more digits, and then a next raw
  line (the empty string at the end of the input) that strips to a text that is not empty
  and does not start with \<open>>\<close>.
\<close>

theorem Sequences_sniff_prefix_iff:
  "Sequences_sniff_prefix ls =
     (\<exists>blank l rest. ls = blank @ l # rest \<and> list_all (\<lambda>b. strip b = []) blank \<and>
        strip l \<noteq> [] \<and>
        (\<exists>name idx cat. strip l = ''>'' @ name @ [TAB] @ idx @ [TAB] @ cat \<and> name \<noteq> [] \<and>
           TAB \<notin> set name \<and> idx \<noteq> [] \<and> list_all is_digit idx \<and>
           cat \<noteq> [] \<and> list_all is_digit cat) \<and>
        strip (readline rest) \<noteq> [] \<and> \<not> startswith (strip (readline rest)) ''>'')"
proof -
  let ?H = "\<lambda>l. \<exists>name idx cat. strip l = ''>'' @ name @ [TAB] @ idx @ [TAB] @ cat \<and> name \<noteq> [] \<and>
           TAB \<notin> set name \<and> idx \<noteq> [] \<and> list_all is_digit idx \<and>
           cat \<noteq> [] \<and> list_all is_digit cat"
  let ?N = "\<lambda>rest. strip (readline rest) \<noteq> [] \<and> \<not> startswith (strip (readline rest)) ''>''"
  have hdr: "(startswith (strip l) ''>'' \<and> re_match sequences_re (strip l) \<noteq> None) = ?H l" for l
    unfolding sequences_line by (auto simp: startswith_def)
  have "Sequences_sniff_prefix ls =
      (case dropWhile (\<lambda>b. strip b = []) ls of [] \<Rightarrow> False | l # rest \<Rightarrow> ?H l \<and> ?N rest)"
    by (rule Sequences_dropWhile [of ?H, OF hdr])
  also have "\<dots> = (\<exists>blank l rest. ls = blank @ l # rest \<and> list_all (\<lambda>b. strip b = []) blank \<and>
      strip l \<noteq> [] \<and> ?H l \<and> ?N rest)"
    by (rule first_nonblank [of ls "\<lambda>b. strip b = []" "\<lambda>l rest. ?H l \<and> ?N rest", symmetric])
  finally show ?thesis .
qed

theorem Sequences_sniff_prefix_iff_witness:
  "Sequences_sniff_prefix (readlines (''>seq1'' @ [TAB] @ ''1'' @ [TAB] @ ''1'' @ [NL] @ ''ACGT'' @ [NL])) \<and>
   \<not> Sequences_sniff_prefix (readlines (''>seq1 1 1'' @ [NL] @ ''ACGT'' @ [NL])) \<and>
   \<not> Sequences_sniff_prefix (readlines (''>seq1'' @ [TAB] @ ''1'' @ [TAB] @ ''1'' @ [NL] @ [NL])) \<and>
   \<not> Sequences_sniff_prefix (readlines (''>seq1'' @ [TAB] @ ''1'' @ [TAB] @ ''1'' @ [NL] @ ''>seq2'' @ [NL]))"
  using Sequences_sniff_prefix_iff [of "readlines (''>seq1'' @ [TAB] @ ''1'' @ [TAB] @ ''1'' @ [NL] @ ''ACGT'' @ [NL])"]
  by (simp add: readlines_def strip_def is_space_def is_digit_def startswith_def re_match_def sequences_re_def)

lemma Roadmaps_sniff_prefix_first_line:
  "Roadmaps_sniff_prefix ls =
     (\<exists>l rest. ls = l # rest \<and>
        (\<exists>a b c. strip l = a @ [TAB] @ b @ [TAB] @ c \<and> a \<noteq> [] \<and> list_all is_digit a \<and>
           b \<noteq> [] \<and> list_all is_digit b \<and> c \<noteq> [] \<and> list_all is_digit c) \<and>
        (\<exists>n. strip (readline rest) = ''ROADMAP '' @ n \<and> n \<noteq> [] \<and> list_all is_digit n))"
proof (cases ls)
  case Nil
  then show ?thesis by simp
next
  case (Cons l rest)
  have "strip l = [] \<Longrightarrow> re_match roadmaps_re (strip l) = None"
    using roadmaps_line [of l] by auto
  then show ?thesis
    unfolding Cons roadmaps_line [symmetric] roadmap_line_line [symmetric]
    by (auto simp: Let_def)
qed

text \<open>
  C2: the first line that is not blank holds three integers separated by tabs and the
  line after it is \<open>ROADMAP 1\<close>, but a blank line comes first: the sniffer returns false.
\<close>

theorem Roadmaps_blank_first_line:
  "Roadmaps_sniff_prefix (readlines ([NL] @ ''142858'' @ [TAB] @ ''21'' @ [TAB] @ ''1'' @ [NL] @ ''ROADMAP 1'' @ [NL])) = False"
  by (simp add: readlines_def strip_def is_space_def)

lemma Roadmaps_examples:
  "Roadmaps_sniff_prefix (readlines (''142858'' @ [TAB] @ ''21'' @ [TAB] @ ''1'' @ [NL] @ ''ROADMAP 1'' @ [NL])) \<and>
   \<not> Roadmaps_sniff_prefix (readlines (''142858 21 1'' @ [NL] @ ''ROADMAP 1'' @ [NL])) \<and>
   \<not> Roadmaps_sniff_prefix (readlines (''142858'' @ [TAB] @ ''21'' @ [TAB] @ ''1'' @ [NL] @ ''ROADMAP x'' @ [NL]))"
  by (simp add: readlines_def strip_def is_space_def is_digit_def startswith_def re_match_def
      roadmaps_re_def roadmap_line_re_def)

text \<open>
  C9: on empty input each of the three sniffers returns false.
\<close>

theorem sniffers_empty_input:
  "\<not> Amos_sniff_prefix (readlines []) \<and> \<not> Sequences_sniff_prefix (readlines []) \<and>
   \<not> Roadmaps_sniff_prefix (readlines [])"
  by (simp add: readlines_def)



subsection \<open>The manifest of the composite dataset\<close>

lemma generate_items_map:
  "generate_items rval cfs = rval @ map (\<lambda>(fn, cf). list_item fn cf) cfs"
  by (induction cfs arbitrary: rval) auto

lemma list_item_optional_suffix:
  "suffix '' (optional)</li>'' (list_item fn cf) = optional cf"
  by (cases "description cf") (auto simp: list_item_def suffix_to_prefix)

lemma Velvet_init_entries:
  "Velvet_init =
     [(''Sequences'', \<lparr>mimetype = Some ''text/html'', description = Some ''Sequences'',
         optional = False, substitute_name_with_metadata = None, is_binary = False\<rparr>),
      (''Roadmaps'', \<lparr>mimetype = Some ''text/html'', description = Some ''Roadmaps'',
         optional = False, substitute_name_with_metadata = None, is_binary = False\<rparr>),
      (''Log'', \<lparr>mimetype = Some ''text/html'', description = Some ''Log'',
         optional = True, substitute_name_with_metadata = None, is_binary = False\<rparr>)]"
  by (simp add: Velvet_init_def)

text \<open>
  C7: the page of \<open>generate_primary_file\<close> for the Velvet datatype lists the declared
  sub-files Sequences, Roadmaps and Log, in this order, each once, as a link followed by
  its description, and only the item of Log carries \<open>(optional)\<close>.  For any declared
  entries the page has one item per entry, in declaration order, and an item ends with
  \<open>(optional)</li>\<close> exactly when its entry is optional.  The page is a function of the
  declared entries alone.
\<close>

theorem generate_primary_file_lists_declared:
  "generate_primary_file Velvet_init d =
     join_lines
       [''<html><head><title>Velvet Galaxy Composite Dataset </title></head><p/>'',
        ''<div>This composite dataset is composed of the following files:<p/><ul>'',
        ''<li><a href='' @ [DQ] @ ''Sequences'' @ [DQ] @ '' type='' @ [DQ] @ ''text/plain'' @ [DQ]
           @ ''>Sequences (Sequences)</a></li>'',
        ''<li><a href='' @ [DQ] @ ''Roadmaps'' @ [DQ] @ '' type='' @ [DQ] @ ''text/plain'' @ [DQ]
           @ ''>Roadmaps (Roadmaps)</a></li>'',
        ''<li><a href='' @ [DQ] @ ''Log'' @ [DQ] @ '' type='' @ [DQ] @ ''text/plain'' @ [DQ]
           @ ''>Log (Log)</a> (optional)</li>'',
        ''</ul></div></html>''] \<and>
   map fst Velvet_init = [''Sequences'', ''Roadmaps'', ''Log''] \<and>
   map (\<lambda>(fn, cf). optional cf) Velvet_init = [False, False, True] \<and>
   generate_primary_file cfs d =
     join_lines
       ([''<html><head><title>Velvet Galaxy Composite Dataset </title></head><p/>'',
         ''<div>This composite dataset is composed of the following files:<p/><ul>'']
        @ map (\<lambda>(fn, cf). list_item fn cf) cfs @ [''</ul></div></html>'']) \<and>
   suffix '' (optional)</li>'' (list_item fn cf) = optional cf"
proof -
  have gen: "generate_primary_file cfs d =
     join_lines
       ([''<html><head><title>Velvet Galaxy Composite Dataset </title></head><p/>'',
         ''<div>This composite dataset is composed of the following files:<p/><ul>'']
        @ map (\<lambda>(fn, cf). list_item fn cf) cfs @ [''</ul></div></html>''])" for cfs
    by (simp add: generate_primary_file_def get_composite_files_def generate_items_map)
  have items: "map (\<lambda>(fn, cf). list_item fn cf) Velvet_init =
     [''<li><a href='' @ [DQ] @ ''Sequences'' @ [DQ] @ '' type='' @ [DQ] @ ''text/plain'' @ [DQ]
           @ ''>Sequences (Sequences)</a></li>'',
        ''<li><a href='' @ [DQ] @ ''Roadmaps'' @ [DQ] @ '' type='' @ [DQ] @ ''text/plain'' @ [DQ]
           @ ''>Roadmaps (Roadmaps)</a></li>'',
        ''<li><a href='' @ [DQ] @ ''Log'' @ [DQ] @ '' type='' @ [DQ] @ ''text/plain'' @ [DQ]
           @ ''>Log (Log)</a> (optional)</li>'']"
    by (simp add: Velvet_init_entries list_item_def)
  show ?thesis
    unfolding gen items
    by (simp add: Velvet_init_entries list_item_optional_suffix del: join_lines.simps)
qed


subsection \<open>Regenerating the primary file\<close>

lemma regenerate_items_filter:
  "regenerate_items rval cfs =
     rval @ map (\<lambda>(fn, cf). list_item fn cf) (filter (\<lambda>(fn, cf). re_search Log_re fn = None) cfs)"
  by (induction cfs arbitrary: rval) auto

text \<open>
  C8: two runs of \<open>regenerate_primary_file\<close> that read the same log text, from any two
  datasets and file systems, set the same three flags and the same info, and write the
  same page (which carries the caption).
\<close>

theorem flags_depend_only_on_log:
  assumes "read_file fs1 (os_path_join (extra_files_path d1) ''Log'') = Inr t"
    and "read_file fs2 (os_path_join (extra_files_path d2) ''Log'') = Inr t"
    and "writable fs1 (file_name d1)" and "writable fs2 (file_name d2)"
  shows "\<exists>d1' fs1' d2' fs2'.
     regenerate_primary_file self d1 fs1 = Inr (d1', fs1') \<and>
     regenerate_primary_file self d2 fs2 = Inr (d2', fs2') \<and>
     paired_end_reads (metadata d1') = paired_end_reads (metadata d2') \<and>
     long_reads (metadata d1') = long_reads (metadata d2') \<and>
     short2_reads (metadata d1') = short2_reads (metadata d2') \<and>
     info d1' = info d2' \<and>
     read_file fs1' (file_name d1) = read_file fs2' (file_name d2)"
  using assms
  by (simp add: regenerate_primary_file_def read_log_def open_read_def open_write_def Let_def
      get_composite_files_def)

text \<open>
  C5, as amended: when the Log file cannot be opened or read and the primary file can be
  written, \<open>regenerate_primary_file\<close> raises nothing, leaves the dataset as it was (its
  three flags and its info keep their values), and writes the page with an empty caption.
\<close>

theorem regenerate_unreadable_log:
  assumes "read_file fs (os_path_join (extra_files_path d) ''Log'') = Inl e"
    and "writable fs (file_name d)"
  shows "\<exists>fs'. regenerate_primary_file self d fs = Inr (d, fs') \<and>
     read_file fs' (file_name d) =
       Inr (join_lines
         (regenerate_items
            [''<html><head><title>Velvet Galaxy Composite Dataset </title></head><p/>'',
             ''<div>Generated:<p/>  </div>'',
             ''<div>Velveth dataset:<p/><ul>''] self
          @ [''</ul></div></html>'']) @ [NL])"
  using assms
  by (simp add: regenerate_primary_file_def read_log_def open_read_def open_write_def Let_def
      get_composite_files_def)

lemma read_log_file_name: "read_log d fs = Inr (d', g) \<Longrightarrow> file_name d' = file_name d"
  by (auto simp: read_log_def Let_def split: sum.splits)

lemma regenerate_items_Velvet:
  "regenerate_items rval Velvet_init =
     rval @
     [''<li><a href='' @ [DQ] @ ''Sequences'' @ [DQ] @ '' type='' @ [DQ] @ ''text/plain'' @ [DQ]
         @ ''>Sequences (Sequences)</a></li>'',
      ''<li><a href='' @ [DQ] @ ''Roadmaps'' @ [DQ] @ '' type='' @ [DQ] @ ''text/plain'' @ [DQ]
         @ ''>Roadmaps (Roadmaps)</a></li>'']"
  by (simp add: Velvet_init_entries Log_re_def startswith_def list_item_def)

text \<open>
  C6: for the Velvet datatype \<open>regenerate_primary_file\<close> raises only when the primary
  file cannot be written, whatever the state of the Log file; the page it writes lists
  Sequences and Roadmaps and has no item for Log.
\<close>

theorem regenerate_omits_Log:
  "\<exists>d' gen_msg. regenerate_primary_file Velvet_init d fs =
     (if writable fs (file_name d)
      then Inr (d', fs\<lparr>read_file := (read_file fs)(file_name d := Inr (join_lines
         [''<html><head><title>Velvet Galaxy Composite Dataset </title></head><p/>'',
          ''<div>Generated:<p/> '' @ gen_msg @ '' </div>'',
          ''<div>Velveth dataset:<p/><ul>'',
          ''<li><a href='' @ [DQ] @ ''Sequences'' @ [DQ] @ '' type='' @ [DQ] @ ''text/plain'' @ [DQ]
             @ ''>Sequences (Sequences)</a></li>'',
          ''<li><a href='' @ [DQ] @ ''Roadmaps'' @ [DQ] @ '' type='' @ [DQ] @ ''text/plain'' @ [DQ]
             @ ''>Roadmaps (Roadmaps)</a></li>'',
          ''</ul></div></html>''] @ [NL]))\<rparr>)
      else Inl PermissionError)"
proof -
  obtain d' g where r: "(case read_log d fs of Inl e \<Rightarrow> (d, []) | Inr r \<Rightarrow> r) = (d', g)"
    by (cases "case read_log d fs of Inl e \<Rightarrow> (d, []) | Inr r \<Rightarrow> r") auto
  then have fn: "file_name d' = file_name d"
    using read_log_file_name [of d fs d' g] by (auto split: sum.splits)
  have "regenerate_primary_file Velvet_init d fs =
     (if writable fs (file_name d)
      then Inr (d', fs\<lparr>read_file := (read_file fs)(file_name d := Inr (join_lines
         [''<html><head><title>Velvet Galaxy Composite Dataset </title></head><p/>'',
          ''<div>Generated:<p/> '' @ g @ '' </div>'',
          ''<div>Velveth dataset:<p/><ul>'',
          ''<li><a href='' @ [DQ] @ ''Sequences'' @ [DQ] @ '' type='' @ [DQ] @ ''text/plain'' @ [DQ]
             @ ''>Sequences (Sequences)</a></li>'',
          ''<li><a href='' @ [DQ] @ ''Roadmaps'' @ [DQ] @ '' type='' @ [DQ] @ ''text/plain'' @ [DQ]
             @ ''>Roadmaps (Roadmaps)</a></li>'',
          ''</ul></div></html>''] @ [NL]))\<rparr>)
      else Inl PermissionError)"
    unfolding regenerate_primary_file_def r
    by (simp add: fn open_write_def get_composite_files_def regenerate_items_Velvet
        del: join_lines.simps)
  then show ?thesis by blast
qed


subsection \<open>The flags read from the log\<close>

lemma matches_paired: "matches paired_re u v = (u = ''-shortPaired'' \<or> u = ''-longPaired'')"
  by (auto simp: paired_re_def)

lemma matches_long: "matches long_re u v = (u = ''-long'')"
  by (simp add: long_re_def)

lemma matches_short2: "matches short2_re u v = (u = ''-short2'' \<or> u = ''-shortPaired2'')"
  by (auto simp: short2_re_def)

lemma search_paired:
  "(re_search paired_re s \<noteq> None) = (sublist ''-shortPaired'' s \<or> sublist ''-longPaired'' s)"
  unfolding re_search_iff matches_paired sublist_def by blast

lemma search_long: "(re_search long_re s \<noteq> None) = sublist ''-long'' s"
  unfolding re_search_iff matches_long sublist_def by blast

lemma search_short2:
  "(re_search short2_re s \<noteq> None) = (sublist ''-short2'' s \<or> sublist ''-shortPaired2'' s)"
  unfolding re_search_iff matches_short2 sublist_def by blast

lemma matches_path:
  "matches path_re u v = (\<exists>w. u = ''/'' @ w @ ''/'' \<and> list_all (\<lambda>c. \<not> is_space c) w)"
  by (auto simp: path_re_def list_all_iff)

lemma path_match_sound:
  assumes "mt path_re s Some = Some rest"
  shows "\<exists>u. s = u @ rest \<and> u \<noteq> [] \<and> list_all (\<lambda>c. \<not> is_space c) u"
proof -
  from mt_sound [OF assms] obtain u v where uv: "s = u @ v" "matches path_re u v" "v = rest"
    by auto
  then obtain w where "u = ''/'' @ w @ ''/''" "list_all (\<lambda>c. \<not> is_space c) w"
    by (auto simp: matches_path)
  then have "u \<noteq> [] \<and> list_all (\<lambda>c. \<not> is_space c) u" by (simp add: is_space_def)
  with uv show ?thesis by blast
qed

lemma path_no_match: "c \<noteq> CHR ''/'' \<Longrightarrow> mt path_re (c # cs) Some = None"
  by (simp add: path_re_def)

lemma re_sub_step_None:
  "mt r (c # cs) Some = None \<Longrightarrow> re_sub r repl (c # cs) = c # re_sub r repl cs"
  by (subst re_sub.simps) simp

lemma re_sub_step_Some:
  "mt r s Some = Some rest \<Longrightarrow> length rest < length s \<Longrightarrow> re_sub r repl s = repl @ re_sub r repl rest"
  by (subst re_sub.simps) simp

lemma re_sub_path_keeps_prefix:
  "CHR ''/'' \<notin> set t \<Longrightarrow> re_sub path_re [] (t @ q) = t @ re_sub path_re [] q"
proof (induction t)
  case Nil
  then show ?case by simp
next
  case (Cons c t)
  then have "c \<noteq> CHR ''/''" by auto
  then have "mt path_re (c # t @ q) Some = None" by (rule path_no_match)
  then have "re_sub path_re [] (c # t @ q) = c # re_sub path_re [] (t @ q)"
    by (rule re_sub_step_None)
  with Cons show ?case by simp
qed

lemma re_sub_path_keeps_token:
  assumes "is_space sp" and "CHR ''/'' \<notin> set (sp # t)"
  shows "\<exists>p' q'. re_sub path_re [] (p @ (sp # t) @ q) = p' @ (sp # t) @ q'"
proof (induction "length p" arbitrary: p rule: less_induct)
  case less
  show ?case
  proof (cases p)
    case Nil
    with re_sub_path_keeps_prefix [OF assms(2), of q]
    have "re_sub path_re [] (p @ (sp # t) @ q) = [] @ (sp # t) @ re_sub path_re [] q" by simp
    then show ?thesis by blast
  next
    case (Cons c p1)
    show ?thesis
    proof (cases "mt path_re (p @ (sp # t) @ q) Some")
      case None
      from less [of p1] Cons obtain p' q' where
        "re_sub path_re [] (p1 @ (sp # t) @ q) = p' @ (sp # t) @ q'" by auto
      with None Cons have "re_sub path_re [] (p @ (sp # t) @ q) = (c # p') @ (sp # t) @ q'"
        by (simp add: re_sub_step_None)
      then show ?thesis by blast
    next
      case (Some rest)
      from path_match_sound [OF Some] obtain u where
        u: "p @ (sp # t) @ q = u @ rest" "u \<noteq> []" "list_all (\<lambda>c. \<not> is_space c) u" by blast
      from u(1) have "\<exists>w. (p = u @ w \<and> w @ (sp # t) @ q = rest) \<or> (p @ w = u \<and> (sp # t) @ q = w @ rest)"
        by (simp only: append_eq_append_conv2)
      then obtain w0 where w0: "(p = u @ w0 \<and> w0 @ (sp # t) @ q = rest) \<or> (p @ w0 = u \<and> (sp # t) @ q = w0 @ rest)"
        by blast
      have "p = u @ w0 \<and> w0 @ (sp # t) @ q = rest"
      proof (rule ccontr)
        assume n: "\<not> (p = u @ w0 \<and> w0 @ (sp # t) @ q = rest)"
        with w0 have a: "p @ w0 = u" "(sp # t) @ q = w0 @ rest" by auto
        have "w0 \<noteq> []"
        proof
          assume "w0 = []"
          with a have "p = u @ w0 \<and> w0 @ (sp # t) @ q = rest" by simp
          with n show False by simp
        qed
        with a(2) have "hd w0 = sp" by (cases w0) auto
        with \<open>w0 \<noteq> []\<close> a(1) have "sp \<in> set u" by (cases w0) auto
        with u(3) assms(1) show False by (simp add: list_all_iff)
      qed
      then have "\<exists>w. p = u @ w \<and> rest = w @ (sp # t) @ q" by blast
      then obtain w where w: "p = u @ w" "rest = w @ (sp # t) @ q" by blast
      with u(2) have "length w < length p" by simp
      from less [OF this] obtain p' q' where
        "re_sub path_re [] (w @ (sp # t) @ q) = p' @ (sp # t) @ q'" by blast
      moreover from w u(2) have "length rest < length (p @ (sp # t) @ q)" by simp
      ultimately have "re_sub path_re [] (p @ (sp # t) @ q) = p' @ (sp # t) @ q'"
        using re_sub_step_Some [OF Some, of "[]"] w by simp
      then show ?thesis by blast
    qed
  qed
qed

lemma example_log_kept:
  assumes "sublist ''velveth -shortPaired2 -long /some/path/x'' s"
  shows "sublist '' -shortPaired2 -long '' (re_sub path_re [] s)"
proof -
  from assms obtain a b where "s = a @ ''velveth -shortPaired2 -long /some/path/x'' @ b"
    by (auto simp: sublist_def)
  then have s: "s = (a @ ''velveth'') @ (CHR '' '' # ''-shortPaired2 -long '') @ (''/some/path/x'' @ b)"
    by simp
  have "\<exists>p' q'. re_sub path_re [] ((a @ ''velveth'') @ (CHR '' '' # ''-shortPaired2 -long '') @ (''/some/path/x'' @ b))
      = p' @ (CHR '' '' # ''-shortPaired2 -long '') @ q'"
    by (rule re_sub_path_keeps_token) (simp_all add: is_space_def)
  then obtain p' q' where "re_sub path_re [] s = p' @ '' -shortPaired2 -long '' @ q'"
    unfolding s [symmetric] by auto
  then show ?thesis unfolding sublist_def by blast
qed

lemma sublist_chain: "sublist a b \<Longrightarrow> sublist b c \<Longrightarrow> sublist a c"
  by (rule sublist_order.order_trans)

lemma example_log_flags:
  assumes "sublist '' -shortPaired2 -long '' s"
  shows "sublist ''-shortPaired'' s \<and> sublist ''-long'' s \<and> sublist ''-shortPaired2'' s"
proof -
  have "sublist ''-shortPaired'' '' -shortPaired2 -long ''"
    unfolding sublist_def by (rule exI [of _ "'' ''"], rule exI [of _ "''2 -long ''"]) simp
  moreover have "sublist ''-long'' '' -shortPaired2 -long ''"
    unfolding sublist_def by (rule exI [of _ "'' -shortPaired2 ''"], rule exI [of _ "'' ''"]) simp
  moreover have "sublist ''-shortPaired2'' '' -shortPaired2 -long ''"
    unfolding sublist_def by (rule exI [of _ "'' ''"], rule exI [of _ "'' -long ''"]) simp
  ultimately show ?thesis using assms by (meson sublist_chain)
qed


lemma regenerate_readable:
  assumes "read_file fs (os_path_join (extra_files_path d) ''Log'') = Inr content"
    and "writable fs (file_name d)"
  shows "\<exists>d' fs'. regenerate_primary_file self d fs = Inr (d', fs') \<and>
     paired_end_reads (metadata d') = (re_search paired_re (re_sub path_re [] (take 1000 content)) \<noteq> None) \<and>
     long_reads (metadata d') = (re_search long_re (re_sub path_re [] (take 1000 content)) \<noteq> None) \<and>
     short2_reads (metadata d') = (re_search short2_re (re_sub path_re [] (take 1000 content)) \<noteq> None)"
  using assms
  by (simp add: regenerate_primary_file_def read_log_def open_read_def open_write_def Let_def
      get_composite_files_def)

text \<open>
  C4: when the Log file is read, with \<open>cleaned\<close> the first 1000 characters of the log
  with every match of \<open>/\S*/\<close> removed: \<open>paired_end_reads\<close> is set to whether \<open>cleaned\<close>
  contains \<open>-shortPaired\<close> or \<open>-longPaired\<close>, \<open>long_reads\<close> to whether it contains
  \<open>-long\<close>, \<open>short2_reads\<close> to whether it contains \<open>-short2\<close> or \<open>-shortPaired2\<close>.
  A log whose first 1000 characters contain \<open>velveth -shortPaired2 -long /some/path/x\<close>
  sets all three flags.
\<close>

theorem regenerate_flags_from_log:
  assumes "read_file fs (os_path_join (extra_files_path d) ''Log'') = Inr content"
    and "writable fs (file_name d)"
  shows "\<exists>d' fs'. regenerate_primary_file self d fs = Inr (d', fs') \<and>
     paired_end_reads (metadata d') =
       (sublist ''-shortPaired'' (re_sub path_re [] (take 1000 content)) \<or>
        sublist ''-longPaired'' (re_sub path_re [] (take 1000 content))) \<and>
     long_reads (metadata d') = sublist ''-long'' (re_sub path_re [] (take 1000 content)) \<and>
     short2_reads (metadata d') =
       (sublist ''-short2'' (re_sub path_re [] (take 1000 content)) \<or>
        sublist ''-shortPaired2'' (re_sub path_re [] (take 1000 content))) \<and>
     (sublist ''velveth -shortPaired2 -long /some/path/x'' (take 1000 content) \<longrightarrow>
        paired_end_reads (metadata d') \<and> long_reads (metadata d') \<and> short2_reads (metadata d'))"
proof -
  let ?c = "re_sub path_re [] (take 1000 content)"
  from regenerate_readable [OF assms, of self] obtain d' fs' where
    r: "regenerate_primary_file self d fs = Inr (d', fs')"
    and p: "paired_end_reads (metadata d') = (sublist ''-shortPaired'' ?c \<or> sublist ''-longPaired'' ?c)"
    and l: "long_reads (metadata d') = sublist ''-long'' ?c"
    and s: "short2_reads (metadata d') = (sublist ''-short2'' ?c \<or> sublist ''-shortPaired2'' ?c)"
    unfolding search_paired search_long search_short2 by blast
  have "paired_end_reads (metadata d') \<and> long_reads (metadata d') \<and> short2_reads (metadata d')"
    if "sublist ''velveth -shortPaired2 -long /some/path/x'' (take 1000 content)"
    using example_log_flags [OF example_log_kept [OF that]] p l s by simp
  with r p l s show ?thesis by blast
qed

theorem regenerate_flags_from_log_witness:
  "read_file (no_files\<lparr>read_file := (read_file no_files)
       (''/data/files/Log'' := Inr ''velveth -shortPaired2 -long /some/path/x'')\<rparr>)
     (os_path_join ''/data/files'' ''Log'') = Inr ''velveth -shortPaired2 -long /some/path/x'' \<and>
   writable no_files ''/data/dataset.dat'' \<and>
   (\<exists>d' fs'.
      regenerate_primary_file Velvet_init
        \<lparr>extra_files_path = ''/data/files'', file_name = ''/data/dataset.dat'',
         metadata = \<lparr>base_name = ''velvet'', paired_end_reads = False, long_reads = False,
           short2_reads = False\<rparr>, info = []\<rparr>
        (no_files\<lparr>read_file := (read_file no_files)
          (''/data/files/Log'' := Inr ''velveth -shortPaired2 -long /some/path/x'')\<rparr>)
      = Inr (d', fs') \<and>
      paired_end_reads (metadata d') \<and> long_reads (metadata d') \<and> short2_reads (metadata d'))"
proof -
  let ?fs = "no_files\<lparr>read_file := (read_file no_files)
       (''/data/files/Log'' := Inr ''velveth -shortPaired2 -long /some/path/x'')\<rparr>"
  let ?d = "\<lparr>extra_files_path = ''/data/files'', file_name = ''/data/dataset.dat'',
         metadata = \<lparr>base_name = ''velvet'', paired_end_reads = False, long_reads = False,
           short2_reads = False\<rparr>, info = []\<rparr>"
  have h1: "read_file ?fs (os_path_join (extra_files_path ?d) ''Log'')
      = Inr ''velveth -shortPaired2 -long /some/path/x''"
    by (simp add: os_path_join_def startswith_def)
  have h2: "writable ?fs (file_name ?d)" by (simp add: no_files_def)
  have h3: "sublist ''velveth -shortPaired2 -long /some/path/x''
      (take 1000 ''velveth -shortPaired2 -long /some/path/x'')" by simp
  from regenerate_flags_from_log [OF h1 h2, of Velvet_init] h3 h1 h2 show ?thesis
    by (auto simp: no_files_def)
qed

text \<open>
  C5, as stated, fails: with no Log file, a dataset whose flags were set and whose info
  was not empty keeps them; the flags are not reset to false.
\<close>

theorem regenerate_missing_log_keeps_flags:
  "read_file no_files (os_path_join ''/data/files'' ''Log'') = Inl FileNotFoundError \<and>
   map_sum id fst
     (regenerate_primary_file Velvet_init
        \<lparr>extra_files_path = ''/data/files'', file_name = ''/data/dataset.dat'',
         metadata = \<lparr>base_name = ''velvet'', paired_end_reads = True, long_reads = True,
           short2_reads = False\<rparr>, info = ''hash_length 21''\<rparr>
        no_files)
   = Inr \<lparr>extra_files_path = ''/data/files'', file_name = ''/data/dataset.dat'',
         metadata = \<lparr>base_name = ''velvet'', paired_end_reads = True, long_reads = True,
           short2_reads = False\<rparr>, info = ''hash_length 21''\<rparr>"
  by (simp add: regenerate_primary_file_def read_log_def open_read_def open_write_def Let_def
      no_files_def)

theorem regenerate_unreadable_log_witness:
  "read_file no_files (os_path_join ''/data/files'' ''Log'') = Inl FileNotFoundError \<and>
   writable no_files ''/data/dataset.dat'' \<and>
   (\<exists>fs'. regenerate_primary_file Velvet_init
        \<lparr>extra_files_path = ''/data/files'', file_name = ''/data/dataset.dat'',
         metadata = \<lparr>base_name = ''velvet'', paired_end_reads = False, long_reads = False,
           short2_reads = False\<rparr>, info = []\<rparr>
        no_files
      = Inr (\<lparr>extra_files_path = ''/data/files'', file_name = ''/data/dataset.dat'',
         metadata = \<lparr>base_name = ''velvet'', paired_end_reads = False, long_reads = False,
           short2_reads = False\<rparr>, info = []\<rparr>, fs'))"
proof -
  let ?d = "\<lparr>extra_files_path = ''/data/files'', file_name = ''/data/dataset.dat'',
         metadata = \<lparr>base_name = ''velvet'', paired_end_reads = False, long_reads = False,
           short2_reads = False\<rparr>, info = []\<rparr>"
  have h1: "read_file no_files (os_path_join (extra_files_path ?d) ''Log'') = Inl FileNotFoundError"
    by (simp add: no_files_def)
  have h2: "writable no_files (file_name ?d)" by (simp add: no_files_def)
  from regenerate_unreadable_log [OF h1 h2, of Velvet_init] h1 h2 show ?thesis
    by auto
qed

theorem flags_depend_only_on_log_witness:
  "\<exists>d1' fs1' d2' fs2'.
     regenerate_primary_file Velvet_init
        \<lparr>extra_files_path = ''/data/a'', file_name = ''/data/a.dat'',
         metadata = \<lparr>base_name = ''velvet'', paired_end_reads = False, long_reads = False,
           short2_reads = False\<rparr>, info = []\<rparr>
        (no_files\<lparr>read_file := (read_file no_files)
          (''/data/a/Log'' := Inr ''velveth out 21 -longPaired reads.fa'')\<rparr>) = Inr (d1', fs1') \<and>
     regenerate_primary_file Velvet_init
        \<lparr>extra_files_path = ''/data/b/'', file_name = ''/data/b.dat'',
         metadata = \<lparr>base_name = ''other'', paired_end_reads = False, long_reads = True,
           short2_reads = True\<rparr>, info = ''old''\<rparr>
        (no_files\<lparr>read_file := (read_file no_files)
          (''/data/b/Log'' := Inr ''velveth out 21 -longPaired reads.fa'')\<rparr>) = Inr (d2', fs2') \<and>
     metadata d1' = \<lparr>base_name = ''velvet'', paired_end_reads = True, long_reads = True,
           short2_reads = False\<rparr> \<and>
     metadata d2' = \<lparr>base_name = ''other'', paired_end_reads = True, long_reads = True,
           short2_reads = False\<rparr> \<and>
     info d1' = ''hash_length 21 -longPaired reads.fa'' \<and> info d1' = info d2' \<and>
     read_file fs1' ''/data/a.dat'' = read_file fs2' ''/data/b.dat''"
proof -
  let ?d1 = "\<lparr>extra_files_path = ''/data/a'', file_name = ''/data/a.dat'',
         metadata = \<lparr>base_name = ''velvet'', paired_end_reads = False, long_reads = False,
           short2_reads = False\<rparr>, info = []\<rparr>"
  let ?d2 = "\<lparr>extra_files_path = ''/data/b/'', file_name = ''/data/b.dat'',
         metadata = \<lparr>base_name = ''other'', paired_end_reads = False, long_reads = True,
           short2_reads = True\<rparr>, info = ''old''\<rparr>"
  let ?fs1 = "no_files\<lparr>read_file := (read_file no_files)
          (''/data/a/Log'' := Inr ''velveth out 21 -longPaired reads.fa'')\<rparr>"
  let ?fs2 = "no_files\<lparr>read_file := (read_file no_files)
          (''/data/b/Log'' := Inr ''velveth out 21 -longPaired reads.fa'')\<rparr>"
  have h1: "read_file ?fs1 (os_path_join (extra_files_path ?d1) ''Log'') = Inr ''velveth out 21 -longPaired reads.fa''"
    by (simp add: os_path_join_def startswith_def)
  have h2: "read_file ?fs2 (os_path_join (extra_files_path ?d2) ''Log'') = Inr ''velveth out 21 -longPaired reads.fa''"
    by (simp add: os_path_join_def startswith_def)
  have h3: "writable ?fs1 (file_name ?d1)" "writable ?fs2 (file_name ?d2)"
    by (simp_all add: no_files_def)
  from flags_depend_only_on_log [OF h1 h2 h3, of Velvet_init]
  obtain d1' fs1' d2' fs2' where
    r: "regenerate_primary_file Velvet_init ?d1 ?fs1 = Inr (d1', fs1')"
       "regenerate_primary_file Velvet_init ?d2 ?fs2 = Inr (d2', fs2')"
       "info d1' = info d2'"
       "read_file fs1' (file_name ?d1) = read_file fs2' (file_name ?d2)"
    by blast
  have e1: "map_sum id fst (regenerate_primary_file Velvet_init ?d1 ?fs1) =
      Inr (?d1\<lparr>metadata := \<lparr>base_name = ''velvet'', paired_end_reads = True, long_reads = True,
           short2_reads = False\<rparr>, info := ''hash_length 21 -longPaired reads.fa''\<rparr>)"
    by (simp add: regenerate_primary_file_def read_log_def open_read_def open_write_def Let_def
      no_files_def os_path_join_def startswith_def re_sub.simps path_re_def velveth_re_def
      newline_re_def paired_re_def long_re_def short2_re_def is_space_def)
  have e2: "map_sum id fst (regenerate_primary_file Velvet_init ?d2 ?fs2) =
      Inr (?d2\<lparr>metadata := \<lparr>base_name = ''other'', paired_end_reads = True, long_reads = True,
           short2_reads = False\<rparr>, info := ''hash_length 21 -longPaired reads.fa''\<rparr>)"
    by (simp add: regenerate_primary_file_def read_log_def open_read_def open_write_def Let_def
      no_files_def os_path_join_def startswith_def re_sub.simps path_re_def velveth_re_def
      newline_re_def paired_re_def long_re_def short2_re_def is_space_def)
  from e1 r(1) have m1: "d1' = ?d1\<lparr>metadata := \<lparr>base_name = ''velvet'', paired_end_reads = True, long_reads = True,
           short2_reads = False\<rparr>, info := ''hash_length 21 -longPaired reads.fa''\<rparr>" by simp
  from e2 r(2) have m2: "d2' = ?d2\<lparr>metadata := \<lparr>base_name = ''other'', paired_end_reads = True, long_reads = True,
           short2_reads = False\<rparr>, info := ''hash_length 21 -longPaired reads.fa''\<rparr>" by simp
  from r m1 m2 show ?thesis by (intro exI [of _ d1'] exI [of _ fs1'] exI [of _ d2'] exI [of _ fs2']) simp
qed


end
